theory Spec2Isabelle
  imports Main
begin

section \<open>The batching hook \<open>useBatch\<close>\<close>

text \<open>
  The hook keeps three mutable references: \<open>batchRef\<close>, a \<open>Map\<close> from dedup keys to
  accepted items; \<open>queueRef\<close>, a \<open>Set\<close> of the items waiting for the next batch; and
  \<open>timeoutRef\<close>, the handle of the scheduled timer or \<open>null\<close>. The model passes the three
  references, the timers armed in the event loop and the consumer's world as one state.
\<close>

subsection \<open>JavaScript values\<close>

text \<open>
  Numbers are integers, \<open>NaN\<close> and the two infinities: the hook never computes with a
  number, it only tests one for truthiness, compares the queue size with one and uses
  one as a key. \<open>-0\<close> is not told apart from \<open>0\<close>: both are falsy and \<open>Map\<close> and
  \<open>Set\<close> identify them.
\<close>

datatype jsnum = Fin int | NaN | PosInf | NegInf

text \<open>
  An object is its reference (an address) and its own properties. Inherited properties
  are left out of the model.
\<close>

datatype jsval =
    JUndefined
  | JNull
  | JBool bool
  | JNum jsnum
  | JStr string
  | JObj nat "(string \<times> jsval) list"

text \<open>
  The payload handed to \<open>addQueue\<close> is an object, as its documentation asks
  (``Payload of the batch in object''): a reference and the own properties.
\<close>

type_synonym jsobj = "nat \<times> (string \<times> jsval) list"

definition obj_val :: "jsobj \<Rightarrow> jsval" where
  "obj_val d = JObj (fst d) (snd d)"

text \<open>The option \<open>batchKey\<close> has the type \<open>string | number\<close>.\<close>

datatype jskey = KStr string | KNum jsnum

fun num_truthy :: "jsnum \<Rightarrow> bool" where
  "num_truthy (Fin n) = (n \<noteq> 0)"
| "num_truthy NaN = False"
| "num_truthy PosInf = True"
| "num_truthy NegInf = True"

fun key_truthy :: "jskey \<Rightarrow> bool" where
  "key_truthy (KStr s) = (s \<noteq> [])"
| "key_truthy (KNum n) = num_truthy n"

fun truthy :: "jsval \<Rightarrow> bool" where
  "truthy JUndefined = False"
| "truthy JNull = False"
| "truthy (JBool b) = b"
| "truthy (JNum n) = num_truthy n"
| "truthy (JStr s) = (s \<noteq> [])"
| "truthy (JObj a ps) = True"

text \<open>
  \<open>Map\<close> and \<open>Set\<close> compare with SameValueZero: objects by reference, everything else
  by value, \<open>NaN\<close> equal to itself.
\<close>

fun same_value_zero :: "jsval \<Rightarrow> jsval \<Rightarrow> bool" where
  "same_value_zero (JObj a ps) (JObj b qs) = (a = b)"
| "same_value_zero x y = (x = y)"

text \<open>
  A number used as a property name is converted to its decimal string. (JavaScript
  switches to exponent notation from \<open>10^21\<close> on; such names are outside the model.)
\<close>

fun digits10 :: "nat \<Rightarrow> string" where
  "digits10 n =
     (if n < 10 then [''0123456789'' ! n]
      else digits10 (n div 10) @ [''0123456789'' ! (n mod 10)])"

declare digits10.simps [simp del]

fun number_to_string :: "jsnum \<Rightarrow> string" where
  "number_to_string (Fin i) = (if i < 0 then ''-'' @ digits10 (nat (- i)) else digits10 (nat i))"
| "number_to_string NaN = ''NaN''"
| "number_to_string PosInf = ''Infinity''"
| "number_to_string NegInf = ''-Infinity''"

fun to_property_key :: "jskey \<Rightarrow> string" where
  "to_property_key (KStr s) = s"
| "to_property_key (KNum n) = number_to_string n"

text \<open>\<open>data[name]\<close>: the property, or \<open>undefined\<close> when the object has none of that name.\<close>

definition get_prop :: "jsobj \<Rightarrow> string \<Rightarrow> jsval" where
  "get_prop d name = (case map_of (snd d) name of Some v \<Rightarrow> v | None \<Rightarrow> JUndefined)"

subsection \<open>\<open>Map\<close> and \<open>Set\<close>\<close>

text \<open>
  Both keep insertion order, so they are lists: \<open>Array.from\<close> of the set is the list
  itself.
\<close>

definition js_map_has :: "jsval \<Rightarrow> (jsval \<times> jsval) list \<Rightarrow> bool" where
  "js_map_has k m = list_ex (\<lambda>e. same_value_zero (fst e) k) m"

fun js_map_get :: "jsval \<Rightarrow> (jsval \<times> jsval) list \<Rightarrow> jsval option" where
  "js_map_get k [] = None"
| "js_map_get k (e # m) = (if same_value_zero (fst e) k then Some (snd e) else js_map_get k m)"

definition js_map_set :: "jsval \<Rightarrow> jsval \<Rightarrow> (jsval \<times> jsval) list \<Rightarrow> (jsval \<times> jsval) list" where
  "js_map_set k v m =
     (if js_map_has k m
      then map (\<lambda>e. if same_value_zero (fst e) k then (fst e, v) else e) m
      else m @ [(k, v)])"

definition js_set_has :: "jsval \<Rightarrow> jsval list \<Rightarrow> bool" where
  "js_set_has x xs = list_ex (\<lambda>y. same_value_zero y x) xs"

definition js_set_add :: "jsval \<Rightarrow> jsval list \<Rightarrow> jsval list" where
  "js_set_add x xs = (if js_set_has x xs then xs else xs @ [x])"

subsection \<open>State and options\<close>

text \<open>
  \<open>timers\<close> are the timers of this hook that the event loop holds armed, each with its
  handle and delay; all of them run the same callback, written in \<open>timer_fires\<close>.
  \<open>setTimeout\<close> returns a fresh handle; handles are positive integers (or objects), so
  a stored handle is always truthy and \<open>if (timeoutRef.current)\<close> is \<open>timeoutRef \<noteq> None\<close>.
  \<open>world\<close> is whatever the consumer callback acts on.
\<close>

record 'w hook_state =
  batchRef :: "(jsval \<times> jsval) list"
  queueRef :: "jsval list"
  timeoutRef :: "nat option"
  timers :: "(nat \<times> jsnum) list"
  last_handle :: nat
  world :: 'w

text \<open>
  The consumer callback runs in the middle of \<open>_consumeQueue\<close> and may do anything,
  also call \<open>addQueue\<close> again: it is a function on the whole state.
\<close>

record 'w options =
  timeout :: "jsnum option"
  threshold :: "jsnum option"
  batchKey :: "jskey option"
  onHitCallback :: "(jsval \<Rightarrow> jsval) option"
  onBatchCallback :: "(jsval list \<Rightarrow> 'w hook_state \<Rightarrow> 'w hook_state) option"

definition init :: "'w \<Rightarrow> 'w hook_state" where
  "init w = \<lparr>batchRef = [], queueRef = [], timeoutRef = None, timers = [], last_handle = 0,
     world = w\<rparr>"

text \<open>\<open>timeout || 10\<close>, \<open>threshold || 1\<close>, \<open>batchKey || ''\<close>.\<close>

definition TIMEOUT :: "'w options \<Rightarrow> jsnum" where
  "TIMEOUT opts =
     (case timeout opts of Some n \<Rightarrow> if num_truthy n then n else Fin 10 | None \<Rightarrow> Fin 10)"

definition THRESHOLD :: "'w options \<Rightarrow> jsnum" where
  "THRESHOLD opts =
     (case threshold opts of Some n \<Rightarrow> if num_truthy n then n else Fin 1 | None \<Rightarrow> Fin 1)"

definition BATCH_KEY :: "'w options \<Rightarrow> jskey" where
  "BATCH_KEY opts =
     (case batchKey opts of Some k \<Rightarrow> if key_truthy k then k else KStr [] | None \<Rightarrow> KStr [])"

subsection \<open>The environment's timers\<close>

definition setTimeout :: "jsnum \<Rightarrow> 'w hook_state \<Rightarrow> nat \<times> 'w hook_state" where
  "setTimeout delay s =
     (let h = Suc (last_handle s)
      in (h, s\<lparr>timers := timers s @ [(h, delay)], last_handle := h\<rparr>))"

definition clearTimeout :: "nat \<Rightarrow> 'w hook_state \<Rightarrow> 'w hook_state" where
  "clearTimeout h s = s\<lparr>timers := filter (\<lambda>t. fst t \<noteq> h) (timers s)\<rparr>"

subsection \<open>The hook's functions\<close>

definition getQueue :: "'w hook_state \<Rightarrow> jsval list" where
  "getQueue s = queueRef s"

definition getBatch :: "'w hook_state \<Rightarrow> (jsval \<times> jsval) list" where
  "getBatch s = batchRef s"

definition enqueueBatch :: "jsval \<Rightarrow> jsval \<Rightarrow> 'w hook_state \<Rightarrow> 'w hook_state" where
  "enqueueBatch key item s =
     s\<lparr>batchRef := js_map_set key item (batchRef s),
       queueRef := js_set_add item (queueRef s)\<rparr>"

text \<open>
  \<open>_consumeQueue\<close> in its three steps: the timer, the callback, the queue.
  \<open>cancel_timer\<close> is its first \<open>if\<close>.
\<close>

definition cancel_timer :: "'w hook_state \<Rightarrow> 'w hook_state" where
  "cancel_timer s =
     (case timeoutRef s of
        Some h \<Rightarrow> (clearTimeout h s)\<lparr>timeoutRef := None\<rparr>
      | None \<Rightarrow> s)"

definition consumeQueue :: "'w options \<Rightarrow> 'w hook_state \<Rightarrow> 'w hook_state" where
  "consumeQueue opts s =
     (let s1 = cancel_timer s;
          s2 = (if queueRef s1 \<noteq> []
                then (case onBatchCallback opts of
                        Some f \<Rightarrow> f (queueRef s1) s1
                      | None \<Rightarrow> s1)
                else s1)
      in s2\<lparr>queueRef := []\<rparr>)"

definition scheduleQueueConsumption :: "'w options \<Rightarrow> 'w hook_state \<Rightarrow> 'w hook_state" where
  "scheduleQueueConsumption opts s =
     (let (h, s1) = setTimeout (TIMEOUT opts) s in s1\<lparr>timeoutRef := Some h\<rparr>)"

text \<open>
  The callback given to \<open>setTimeout\<close>, run when the event loop fires the timer \<open>h\<close>: the
  timer leaves the event loop, and the queue is consumed when it is not empty. A handle
  that is not armed does not fire.
\<close>

definition timer_fires :: "'w options \<Rightarrow> nat \<Rightarrow> 'w hook_state \<Rightarrow> 'w hook_state" where
  "timer_fires opts h s =
     (if h \<in> set (map fst (timers s))
      then (let s1 = clearTimeout h s
            in if queueRef s1 \<noteq> [] then consumeQueue opts s1 else s1)
      else s)"

definition cleanupQueue :: "'w options \<Rightarrow> 'w hook_state \<Rightarrow> 'w hook_state" where
  "cleanupQueue opts s = (consumeQueue opts s)\<lparr>batchRef := [], queueRef := []\<rparr>"

text \<open>\<open>size >= THRESHOLD\<close>.\<close>

fun size_ge :: "nat \<Rightarrow> jsnum \<Rightarrow> bool" where
  "size_ge n (Fin t) = (t \<le> int n)"
| "size_ge n NaN = False"
| "size_ge n PosInf = False"
| "size_ge n NegInf = True"

text \<open>
  \<open>data[BATCH_KEY] || Date.now()\<close>; \<open>now\<close> is what \<open>Date.now()\<close> returns during the call,
  the milliseconds since the epoch.
\<close>

definition derive_key :: "'w options \<Rightarrow> jsobj \<Rightarrow> int \<Rightarrow> jsval" where
  "derive_key opts d now =
     (let v = get_prop d (to_property_key (BATCH_KEY opts))
      in if truthy v then v else JNum (Fin now))"

definition hit :: "'w options \<Rightarrow> jsobj \<Rightarrow> jsval" where
  "hit opts d =
     (case onHitCallback opts of Some f \<Rightarrow> f (obj_val d) | None \<Rightarrow> obj_val d)"

definition addQueue :: "'w options \<Rightarrow> jsobj \<Rightarrow> int \<Rightarrow> 'w hook_state \<Rightarrow> 'w hook_state" where
  "addQueue opts d now s =
     (let key = derive_key opts d now
      in if js_map_has key (batchRef s) then s
         else
           (let payload = hit opts d;
                s1 = enqueueBatch key payload s;
                s2 = (if timeoutRef s1 = None then scheduleQueueConsumption opts s1 else s1);
                s3 = (if size_ge (length (queueRef s2)) (THRESHOLD opts)
                      then consumeQueue opts s2 else s2)
            in s3))"

subsection \<open>Runs\<close>

text \<open>
  What happens to one hook instance: a call of \<open>addQueue\<close> (with the clock's value), an
  armed timer firing, and the teardown (\<open>_cleanupQueue\<close>, called by the
  \<open>beforeunload\<close> handler and by the effect's cleanup).
\<close>

datatype event = Add jsobj int | Fire nat | Teardown

fun step :: "'w options \<Rightarrow> event \<Rightarrow> 'w hook_state \<Rightarrow> 'w hook_state" where
  "step opts (Add d now) s = addQueue opts d now s"
| "step opts (Fire h) s = timer_fires opts h s"
| "step opts Teardown s = cleanupQueue opts s"

fun run :: "'w options \<Rightarrow> event list \<Rightarrow> 'w hook_state \<Rightarrow> 'w hook_state" where
  "run opts [] s = s"
| "run opts (e # es) s = run opts es (step opts e s)"

text \<open>
  The items \<open>addQueue\<close> accepts during a run, each after \<open>onHitCallback\<close>, in the order of
  their arrival.
\<close>

fun accepted :: "'w options \<Rightarrow> event list \<Rightarrow> 'w hook_state \<Rightarrow> jsval list" where
  "accepted opts [] s = []"
| "accepted opts (Add d now # es) s =
     (if js_map_has (derive_key opts d now) (batchRef s) then [] else [hit opts d])
     @ accepted opts es (step opts (Add d now) s)"
| "accepted opts (e # es) s = accepted opts es (step opts e s)"

text \<open>
  A consumer that only records the batches it is given, and the callbacks that do not
  touch the hook: they change the world and nothing else.
\<close>

definition deliver :: "jsval list \<Rightarrow> jsval list list hook_state \<Rightarrow> jsval list list hook_state" where
  "deliver b s = s\<lparr>world := world s @ [b]\<rparr>"

definition non_reentrant :: "'w options \<Rightarrow> bool" where
  "non_reentrant opts \<longleftrightarrow>
     (\<forall>f b s. onBatchCallback opts = Some f \<longrightarrow> f b s = s\<lparr>world := world (f b s)\<rparr>)"

text \<open>No two items of a list are the same value for \<open>Set\<close>.\<close>

fun distinct_svz :: "jsval list \<Rightarrow> bool" where
  "distinct_svz [] = True"
| "distinct_svz (x # xs) = (\<not> js_set_has x xs \<and> distinct_svz xs)"

subsection \<open>Invariants of the reachable states\<close>

text \<open>
  Between two events the timer reference and the event loop agree: either nothing is
  scheduled and nothing waits, or exactly the referenced timer is armed and the queue
  is not empty.
\<close>

definition timer_inv :: "'w hook_state \<Rightarrow> bool" where
  "timer_inv s =
     (case timeoutRef s of
        None \<Rightarrow> timers s = [] \<and> queueRef s = []
      | Some h \<Rightarrow> map fst (timers s) = [h] \<and> queueRef s \<noteq> [])"

definition below_threshold :: "'w options \<Rightarrow> 'w hook_state \<Rightarrow> bool" where
  "below_threshold opts s =
     (queueRef s = [] \<or> \<not> size_ge (length (queueRef s)) (THRESHOLD opts))"

definition reach_inv :: "'w options \<Rightarrow> 'w hook_state \<Rightarrow> bool" where
  "reach_inv opts s = (timer_inv s \<and> distinct_svz (queueRef s) \<and> below_threshold opts s)"

text \<open>
  What also holds while a consumer calls back into the hook: the armed timers are none,
  or the one whose handle the hook holds. \<open>keeps_held\<close> are the consumers that leave it
  so, among them those that do nothing to the hook and those that call \<open>addQueue\<close>.
\<close>

definition held :: "'w hook_state \<Rightarrow> bool" where
  "held s = (timers s = [] \<or> map (\<lambda>t. Some (fst t)) (timers s) = [timeoutRef s])"

definition keeps_held :: "'w options \<Rightarrow> bool" where
  "keeps_held opts \<longleftrightarrow>
     (\<forall>f b s. onBatchCallback opts = Some f \<longrightarrow> held s \<longrightarrow> held (f b s))"

text \<open>Everything delivered so far, followed by what still waits.\<close>

definition ledger :: "jsval list list hook_state \<Rightarrow> jsval list" where
  "ledger s = concat (world s) @ queueRef s"

text \<open>Two option records that give the hook the same constants and callbacks.\<close>

definition same_config :: "'w options \<Rightarrow> 'w options \<Rightarrow> bool" where
  "same_config a b \<longleftrightarrow>
     TIMEOUT a = TIMEOUT b \<and> THRESHOLD a = THRESHOLD b \<and> BATCH_KEY a = BATCH_KEY b
     \<and> onHitCallback a = onHitCallback b \<and> onBatchCallback a = onBatchCallback b"

subsection \<open>Sample configurations\<close>

text \<open>
  \<open>useBatch({batchKey: 'id', onBatchCallback})\<close> with a recording consumer, the same with
  \<open>threshold: 3\<close>, and the latter with an \<open>onHitCallback\<close> that maps every payload to
  the string \<open>'view'\<close>. \<open>item a i\<close> is the object \<open>{id: i}\<close> at address \<open>a\<close>.
\<close>

definition demo_opts :: "jsval list list options" where
  "demo_opts = \<lparr>timeout = None, threshold = None, batchKey = Some (KStr ''id''),
     onHitCallback = None, onBatchCallback = Some deliver\<rparr>"

definition opts3 :: "jsval list list options" where
  "opts3 = demo_opts\<lparr>threshold := Some (Fin 3)\<rparr>"

definition view_opts :: "jsval list list options" where
  "view_opts = opts3\<lparr>onHitCallback := Some (\<lambda>d. JStr ''view'')\<rparr>"

definition item :: "nat \<Rightarrow> int \<Rightarrow> jsobj" where
  "item a i = (a, [(''id'', JNum (Fin i))])"

text \<open>
  A hook with \<open>threshold: 5\<close> and no consumer, and the same hook with a consumer that
  calls \<open>addQueue({id: 9})\<close> again. The call inside the consumer is written with the
  options of the first: the two agree as long as that call does not flush in its turn,
  which with fewer than five items waiting it does not.
\<close>

definition quiet_opts :: "unit options" where
  "quiet_opts = \<lparr>timeout = None, threshold = Some (Fin 5), batchKey = Some (KStr ''id''),
     onHitCallback = None, onBatchCallback = None\<rparr>"

definition reentrant_opts :: "unit options" where
  "reentrant_opts =
     quiet_opts\<lparr>onBatchCallback := Some (\<lambda>b. addQueue quiet_opts (item 9 9) 500)\<rparr>"

lemmas hook_defs =
  init_def addQueue_def derive_key_def BATCH_KEY_def THRESHOLD_def TIMEOUT_def get_prop_def
  hit_def obj_val_def enqueueBatch_def js_map_has_def js_map_set_def js_set_add_def js_set_has_def
  scheduleQueueConsumption_def setTimeout_def clearTimeout_def cancel_timer_def consumeQueue_def
  cleanupQueue_def timer_fires_def deliver_def getQueue_def getBatch_def Let_def

lemmas demo_defs =
  demo_opts_def opts3_def view_opts_def quiet_opts_def reentrant_opts_def item_def

section \<open>Lemmas\<close>

lemma svz_refl [simp]: "same_value_zero x x"
  by (cases x) simp_all

lemma svz_sym: "same_value_zero x y = same_value_zero y x"
  by (cases x; cases y) auto

lemma svz_trans: "same_value_zero x y \<Longrightarrow> same_value_zero y z \<Longrightarrow> same_value_zero x z"
  by (cases x; cases y; cases z) auto

lemma js_set_has_append [simp]: "js_set_has x (xs @ ys) = (js_set_has x xs \<or> js_set_has x ys)"
  by (simp add: js_set_has_def list_ex_iff) blast

lemma js_set_has_Nil [simp]: "js_set_has x [] = False"
  by (simp add: js_set_has_def)

lemma js_set_has_Cons [simp]: "js_set_has x (y # ys) = (same_value_zero y x \<or> js_set_has x ys)"
  by (simp add: js_set_has_def)

lemma distinct_svz_append:
  "distinct_svz (xs @ ys) =
     (distinct_svz xs \<and> distinct_svz ys \<and> (\<forall>x\<in>set xs. \<not> js_set_has x ys))"
  by (induction xs) auto

lemma distinct_svz_add: "distinct_svz xs \<Longrightarrow> distinct_svz (js_set_add x xs)"
  by (auto simp: js_set_add_def distinct_svz_append svz_sym js_set_has_def list_ex_iff)

lemma js_set_add_not_Nil [simp]: "js_set_add x xs \<noteq> []"
  by (auto simp: js_set_add_def)

lemma js_map_has_Nil [simp]: "js_map_has k [] = False"
  by (simp add: js_map_has_def)

lemma queueRef_consumeQueue [simp]: "queueRef (consumeQueue opts s) = []"
  by (simp add: consumeQueue_def Let_def)

lemma cancel_timer_fields [simp]:
  "batchRef (cancel_timer s) = batchRef s"
  "queueRef (cancel_timer s) = queueRef s"
  "timeoutRef (cancel_timer s) = None"
  "last_handle (cancel_timer s) = last_handle s"
  "world (cancel_timer s) = world s"
  by (simp_all add: cancel_timer_def clearTimeout_def split: option.splits)

lemma timers_cancel_timer:
  "timers (cancel_timer s) =
     (case timeoutRef s of Some h \<Rightarrow> filter (\<lambda>t. fst t \<noteq> h) (timers s) | None \<Rightarrow> timers s)"
  by (simp add: cancel_timer_def clearTimeout_def split: option.splits)

lemma non_reentrant_fields:
  assumes "non_reentrant opts" and "onBatchCallback opts = Some f"
  shows "batchRef (f b s) = batchRef s" and "queueRef (f b s) = queueRef s"
    and "timeoutRef (f b s) = timeoutRef s" and "timers (f b s) = timers s"
    and "last_handle (f b s) = last_handle s"
proof -
  from assms have eq: "f b s = s\<lparr>world := world (f b s)\<rparr>"
    unfolding non_reentrant_def by blast
  show "batchRef (f b s) = batchRef s" by (subst eq) simp
  show "queueRef (f b s) = queueRef s" by (subst eq) simp
  show "timeoutRef (f b s) = timeoutRef s" by (subst eq) simp
  show "timers (f b s) = timers s" by (subst eq) simp
  show "last_handle (f b s) = last_handle s" by (subst eq) simp
qed

lemma consumeQueue_fields:
  assumes "non_reentrant opts"
  shows "batchRef (consumeQueue opts s) = batchRef s"
    and "timeoutRef (consumeQueue opts s) = None"
    and "timers (consumeQueue opts s) = timers (cancel_timer s)"
    and "last_handle (consumeQueue opts s) = last_handle s"
  using assms
  by (auto simp: consumeQueue_def Let_def non_reentrant_fields split: option.splits)

lemma non_reentrant_deliver: "onBatchCallback opts = Some deliver \<Longrightarrow> non_reentrant opts"
  by (simp add: non_reentrant_def deliver_def)

lemma world_consumeQueue_deliver:
  "onBatchCallback opts = Some deliver \<Longrightarrow>
   world (consumeQueue opts s) = (if queueRef s \<noteq> [] then world s @ [queueRef s] else world s)"
  by (simp add: consumeQueue_def Let_def deliver_def)

lemma timer_inv_init: "timer_inv (init w)"
  by (simp add: timer_inv_def init_def)

lemma timer_inv_consumeQueue:
  "non_reentrant opts \<Longrightarrow> timer_inv s \<Longrightarrow> timer_inv (consumeQueue opts s)"
  by (auto simp: timer_inv_def consumeQueue_fields timers_cancel_timer split: option.splits)

lemma enqueueBatch_fields [simp]:
  "batchRef (enqueueBatch k v s) = js_map_set k v (batchRef s)"
  "queueRef (enqueueBatch k v s) = js_set_add v (queueRef s)"
  "timeoutRef (enqueueBatch k v s) = timeoutRef s"
  "timers (enqueueBatch k v s) = timers s"
  "last_handle (enqueueBatch k v s) = last_handle s"
  "world (enqueueBatch k v s) = world s"
  by (simp_all add: enqueueBatch_def)

lemma schedule_fields [simp]:
  "batchRef (scheduleQueueConsumption opts s) = batchRef s"
  "queueRef (scheduleQueueConsumption opts s) = queueRef s"
  "timeoutRef (scheduleQueueConsumption opts s) = Some (Suc (last_handle s))"
  "timers (scheduleQueueConsumption opts s) = timers s @ [(Suc (last_handle s), TIMEOUT opts)]"
  "last_handle (scheduleQueueConsumption opts s) = Suc (last_handle s)"
  "world (scheduleQueueConsumption opts s) = world s"
  by (simp_all add: scheduleQueueConsumption_def setTimeout_def Let_def)

lemma timer_inv_addQueue:
  "non_reentrant opts \<Longrightarrow> timer_inv s \<Longrightarrow> timer_inv (addQueue opts d now s)"
  unfolding addQueue_def Let_def
  apply (simp add: timer_inv_consumeQueue)
  apply (intro conjI impI timer_inv_consumeQueue)
  apply (auto simp: timer_inv_def split: option.splits)
  done

lemma timer_inv_timer_fires:
  "non_reentrant opts \<Longrightarrow> timer_inv s \<Longrightarrow> timer_inv (timer_fires opts h s)"
  unfolding timer_fires_def Let_def
  by (auto simp: timer_inv_def consumeQueue_fields timers_cancel_timer clearTimeout_def
      split: option.splits)

lemma timer_inv_cleanupQueue:
  "non_reentrant opts \<Longrightarrow> timer_inv s \<Longrightarrow> timer_inv (cleanupQueue opts s)"
  unfolding cleanupQueue_def
  by (auto simp: timer_inv_def consumeQueue_fields timers_cancel_timer split: option.splits)

lemma timer_inv_step:
  "non_reentrant opts \<Longrightarrow> timer_inv s \<Longrightarrow> timer_inv (step opts e s)"
  by (cases e) (simp_all add: timer_inv_addQueue timer_inv_timer_fires timer_inv_cleanupQueue)

lemma timer_inv_run:
  "non_reentrant opts \<Longrightarrow> timer_inv s \<Longrightarrow> timer_inv (run opts es s)"
  by (induction es arbitrary: s) (simp_all add: timer_inv_step)

lemma reach_inv_init: "reach_inv opts (init w)"
  by (simp add: reach_inv_def timer_inv_init below_threshold_def) (simp add: init_def)

lemma queueRef_addQueue:
  "queueRef (addQueue opts d now s) =
     (if js_map_has (derive_key opts d now) (batchRef s) then queueRef s
      else if size_ge (length (js_set_add (hit opts d) (queueRef s))) (THRESHOLD opts) then []
      else js_set_add (hit opts d) (queueRef s))"
  by (simp add: addQueue_def Let_def)

lemma queueRef_timer_fires:
  "queueRef (timer_fires opts h s) = (if h \<in> set (map fst (timers s)) then [] else queueRef s)"
  by (simp add: timer_fires_def Let_def clearTimeout_def)

lemma queueRef_cleanupQueue [simp]: "queueRef (cleanupQueue opts s) = []"
  by (simp add: cleanupQueue_def)

lemma batchRef_cleanupQueue [simp]: "batchRef (cleanupQueue opts s) = []"
  by (simp add: cleanupQueue_def)

lemma queue_inv_step:
  "distinct_svz (queueRef s) \<and> below_threshold opts s \<Longrightarrow>
   distinct_svz (queueRef (step opts e s)) \<and> below_threshold opts (step opts e s)"
  by (cases e)
     (auto simp: below_threshold_def queueRef_addQueue queueRef_timer_fires distinct_svz_add)

lemma reach_inv_step: "non_reentrant opts \<Longrightarrow> reach_inv opts s \<Longrightarrow> reach_inv opts (step opts e s)"
  using queue_inv_step [of s opts e] by (simp add: reach_inv_def timer_inv_step)

lemma reach_inv_run: "non_reentrant opts \<Longrightarrow> reach_inv opts s \<Longrightarrow> reach_inv opts (run opts es s)"
  by (induction es arbitrary: s) (simp_all add: reach_inv_step)

lemma reach_inv_reachable: "non_reentrant opts \<Longrightarrow> reach_inv opts (run opts es (init w))"
  by (simp add: reach_inv_run reach_inv_init)

lemma last_handle_addQueue:
  "non_reentrant opts \<Longrightarrow>
   last_handle (addQueue opts d now s) =
     (if \<not> js_map_has (derive_key opts d now) (batchRef s) \<and> timeoutRef s = None
      then Suc (last_handle s) else last_handle s)"
  by (simp add: addQueue_def Let_def consumeQueue_fields)

lemma ledger_consumeQueue:
  "onBatchCallback opts = Some deliver \<Longrightarrow> ledger (consumeQueue opts s) = ledger s"
  by (simp add: ledger_def world_consumeQueue_deliver)

lemma world_cleanupQueue: "world (cleanupQueue opts s) = world (consumeQueue opts s)"
  by (simp add: cleanupQueue_def)

lemma ledger_cleanupQueue:
  "onBatchCallback opts = Some deliver \<Longrightarrow> ledger (cleanupQueue opts s) = ledger s"
  by (simp add: ledger_def world_cleanupQueue world_consumeQueue_deliver)

lemma ledger_clearTimeout [simp]: "ledger (clearTimeout h s) = ledger s"
  by (simp add: ledger_def clearTimeout_def)

lemma ledger_timer_fires:
  "onBatchCallback opts = Some deliver \<Longrightarrow> ledger (timer_fires opts h s) = ledger s"
  by (simp add: timer_fires_def Let_def ledger_consumeQueue)

lemma ledger_addQueue:
  "onBatchCallback opts = Some deliver \<Longrightarrow>
   ledger (addQueue opts d now s) =
     (if js_map_has (derive_key opts d now) (batchRef s) then ledger s
      else concat (world s) @ js_set_add (hit opts d) (queueRef s))"
  by (simp add: addQueue_def Let_def ledger_consumeQueue) (simp add: ledger_def)

lemma ledger_run:
  assumes cb: "onBatchCallback opts = Some deliver"
  shows "distinct_svz (queueRef s @ accepted opts es s) \<Longrightarrow>
         ledger (run opts es s) = ledger s @ accepted opts es s"
proof (induction es arbitrary: s)
  case Nil
  then show ?case by simp
next
  case (Cons e es)
  show ?case
  proof (cases e)
    case (Add d now)
    let ?s' = "addQueue opts d now s"
    show ?thesis
    proof (cases "js_map_has (derive_key opts d now) (batchRef s)")
      case True
      then have same: "?s' = s" by (simp add: addQueue_def)
      with Cons.prems Add True have "distinct_svz (queueRef ?s' @ accepted opts es ?s')"
        by simp
      then have "ledger (run opts es ?s') = ledger ?s' @ accepted opts es ?s'"
        by (rule Cons.IH)
      with Add True same show ?thesis by simp
    next
      case False
      with Cons.prems Add
      have dist: "distinct_svz (queueRef s @ hit opts d # accepted opts es ?s')"
        by simp
      then have fresh: "\<not> js_set_has (hit opts d) (queueRef s)"
        by (auto simp: distinct_svz_append js_set_has_def list_ex_iff svz_sym)
      then have add: "js_set_add (hit opts d) (queueRef s) = queueRef s @ [hit opts d]"
        by (simp add: js_set_add_def)
      from dist have d2: "distinct_svz ((queueRef s @ [hit opts d]) @ accepted opts es ?s')"
        by simp
      have "queueRef ?s' = [] \<or> queueRef ?s' = queueRef s @ [hit opts d]"
        using False add by (simp add: queueRef_addQueue)
      with d2 have "distinct_svz (queueRef ?s' @ accepted opts es ?s')"
        by (auto simp: distinct_svz_append)
      then have "ledger (run opts es ?s') = ledger ?s' @ accepted opts es ?s'"
        by (rule Cons.IH)
      moreover have "ledger ?s' = ledger s @ [hit opts d]"
        using False add cb by (simp add: ledger_addQueue) (simp add: ledger_def)
      ultimately show ?thesis using Add False by simp
    qed
  next
    case (Fire h)
    let ?s' = "timer_fires opts h s"
    have "queueRef ?s' = [] \<or> queueRef ?s' = queueRef s"
      by (simp add: queueRef_timer_fires)
    with Cons.prems Fire have "distinct_svz (queueRef ?s' @ accepted opts es ?s')"
      by (auto simp: distinct_svz_append)
    then have "ledger (run opts es ?s') = ledger ?s' @ accepted opts es ?s'"
      by (rule Cons.IH)
    with Fire cb show ?thesis by (simp add: ledger_timer_fires)
  next
    case Teardown
    let ?s' = "cleanupQueue opts s"
    from Cons.prems Teardown have "distinct_svz (queueRef ?s' @ accepted opts es ?s')"
      by (auto simp: distinct_svz_append)
    then have "ledger (run opts es ?s') = ledger ?s' @ accepted opts es ?s'"
      by (rule Cons.IH)
    with Teardown cb show ?thesis by (simp add: ledger_cleanupQueue)
  qed
qed

lemma js_set_has_svz:
  "same_value_zero x y \<Longrightarrow> js_set_has x xs = js_set_has y xs"
  unfolding js_set_has_def list_ex_iff
  by (metis svz_sym svz_trans)

lemma js_set_has_concat:
  "js_set_has x (concat bs) = (\<exists>b\<in>set bs. js_set_has x b)"
  by (induction bs) simp_all

lemma one_batch:
  "distinct_svz (concat bs) \<Longrightarrow> length (filter (js_set_has x) bs) \<le> 1"
proof (induction bs)
  case Nil
  then show ?case by simp
next
  case (Cons b bs)
  then have ih: "length (filter (js_set_has x) bs) \<le> 1"
    and sep: "\<forall>y\<in>set b. \<not> js_set_has y (concat bs)"
    by (simp_all add: distinct_svz_append)
  show ?case
  proof (cases "js_set_has x b")
    case True
    then obtain y where y: "y \<in> set b" "same_value_zero y x"
      by (auto simp: js_set_has_def list_ex_iff)
    with sep have "\<not> js_set_has y (concat bs)" by blast
    with y(2) have "\<not> js_set_has x (concat bs)" by (simp add: js_set_has_svz)
    then have "filter (js_set_has x) bs = []"
      by (simp add: js_set_has_concat filter_empty_conv)
    with True show ?thesis by simp
  next
    case False
    with ih show ?thesis by simp
  qed
qed

lemma batchRef_timer_fires:
  "non_reentrant opts \<Longrightarrow> batchRef (timer_fires opts h s) = batchRef s"
  by (simp add: timer_fires_def Let_def consumeQueue_fields clearTimeout_def)

lemma batchRef_addQueue:
  "non_reentrant opts \<Longrightarrow>
   batchRef (addQueue opts d now s) =
     (if js_map_has (derive_key opts d now) (batchRef s) then batchRef s
      else batchRef s @ [(derive_key opts d now, hit opts d)])"
  by (simp add: addQueue_def Let_def consumeQueue_fields js_map_set_def)

lemma addQueue_seen: "js_map_has (derive_key opts d now) (batchRef s) \<Longrightarrow> addQueue opts d now s = s"
  by (simp add: addQueue_def)

lemma js_map_get_has: "js_map_get k m = Some v \<Longrightarrow> js_map_has k m"
  by (induction m) (auto simp: js_map_has_def split: if_splits)

lemma count_one:
  "distinct_svz xs \<Longrightarrow> js_set_has v xs \<Longrightarrow> length (filter (\<lambda>y. same_value_zero y v) xs) = 1"
proof (induction xs)
  case Nil
  then show ?case by simp
next
  case (Cons x xs)
  show ?case
  proof (cases "same_value_zero x v")
    case True
    with Cons.prems have "\<not> js_set_has v xs" by (simp add: js_set_has_svz)
    then have "filter (\<lambda>y. same_value_zero y v) xs = []"
      by (simp add: js_set_has_def list_ex_iff filter_empty_conv)
    with True show ?thesis by simp
  next
    case False
    with Cons show ?thesis by simp
  qed
qed

lemma cleanupQueue_idem:
  assumes "non_reentrant opts"
  shows "cleanupQueue opts (cleanupQueue opts s) = cleanupQueue opts s"
proof -
  let ?t = "cleanupQueue opts s"
  have q: "queueRef ?t = []" and b: "batchRef ?t = []" by simp_all
  have r: "timeoutRef ?t = None"
    using assms by (simp add: cleanupQueue_def consumeQueue_fields)
  from r have c: "cancel_timer ?t = ?t" by (simp add: cancel_timer_def)
  have "consumeQueue opts ?t = ?t\<lparr>queueRef := []\<rparr>"
    unfolding consumeQueue_def Let_def c using q by simp
  then have "consumeQueue opts ?t = ?t" using q by simp
  then show ?thesis
    using q b by (simp add: cleanupQueue_def[of opts ?t])
qed

lemma same_config_consumeQueue:
  assumes "same_config a b"
  shows "consumeQueue a s = consumeQueue b s"
proof -
  from assms have "onBatchCallback a = onBatchCallback b" by (simp add: same_config_def)
  then show ?thesis by (simp add: consumeQueue_def Let_def)
qed

lemma same_config_addQueue:
  assumes "same_config a b"
  shows "addQueue a d now s = addQueue b d now s"
proof -
  from assms have eqs: "TIMEOUT a = TIMEOUT b" "THRESHOLD a = THRESHOLD b"
    "BATCH_KEY a = BATCH_KEY b" "onHitCallback a = onHitCallback b"
    by (simp_all add: same_config_def)
  have "consumeQueue a = consumeQueue b"
    using assms by (auto simp: same_config_consumeQueue)
  with eqs show ?thesis
    by (simp add: addQueue_def derive_key_def hit_def scheduleQueueConsumption_def Let_def)
qed

lemma same_config_step:
  assumes "same_config a b"
  shows "step a e s = step b e s"
proof -
  have "consumeQueue a = consumeQueue b"
    using assms by (auto simp: same_config_consumeQueue)
  then show ?thesis
    using same_config_addQueue [OF assms]
    by (cases e) (simp_all add: timer_fires_def cleanupQueue_def Let_def)
qed

lemma same_config_run: "same_config a b \<Longrightarrow> run a es s = run b es s"
  by (induction es arbitrary: s) (simp_all add: same_config_step)

lemma addQueue_at_threshold:
  assumes "onBatchCallback opts = Some deliver"
    and "\<not> js_map_has (derive_key opts d now) (batchRef s)"
    and "size_ge (length (js_set_add (hit opts d) (queueRef s))) (THRESHOLD opts)"
  shows "world (addQueue opts d now s) = world s @ [js_set_add (hit opts d) (queueRef s)]"
    and "queueRef (addQueue opts d now s) = []"
    and "timeoutRef (addQueue opts d now s) = None"
    and "timer_inv s \<Longrightarrow> timers (addQueue opts d now s) = []"
proof -
  have nr: "non_reentrant opts" using assms(1) by (rule non_reentrant_deliver)
  from assms(2,3) have eq: "addQueue opts d now s =
      consumeQueue opts
        (let s1 = enqueueBatch (derive_key opts d now) (hit opts d) s
         in if timeoutRef s1 = None then scheduleQueueConsumption opts s1 else s1)"
    by (simp add: addQueue_def Let_def)
  show "world (addQueue opts d now s) = world s @ [js_set_add (hit opts d) (queueRef s)]"
    unfolding eq using assms(1) by (simp add: Let_def world_consumeQueue_deliver)
  show "queueRef (addQueue opts d now s) = []"
    unfolding eq by simp
  show "timeoutRef (addQueue opts d now s) = None"
    unfolding eq using nr by (simp add: consumeQueue_fields)
  show "timer_inv s \<Longrightarrow> timers (addQueue opts d now s) = []"
    unfolding eq using nr
    by (auto simp: Let_def consumeQueue_fields timers_cancel_timer timer_inv_def
        split: option.splits)
qed

lemma held_init: "held (init w)"
  by (simp add: held_def init_def)

lemma held_cancel_timer: "held s \<Longrightarrow> timers (cancel_timer s) = []"
  by (auto simp: held_def timers_cancel_timer split: option.splits)

lemma held_queue_update [simp]: "held (s\<lparr>queueRef := q\<rparr>) = held s"
  by (simp add: held_def)

lemma held_batch_update [simp]: "held (s\<lparr>batchRef := q\<rparr>) = held s"
  by (simp add: held_def)

lemma held_consumeQueue: "keeps_held opts \<Longrightarrow> held s \<Longrightarrow> held (consumeQueue opts s)"
proof -
  assume k: "keeps_held opts" and h: "held s"
  from h have "timers (cancel_timer s) = []" by (rule held_cancel_timer)
  then have c: "held (cancel_timer s)" by (simp add: held_def)
  show ?thesis
  proof (cases "onBatchCallback opts")
    case None
    with c show ?thesis by (simp add: consumeQueue_def Let_def)
  next
    case (Some f)
    with k c have "held (f (queueRef (cancel_timer s)) (cancel_timer s))"
      unfolding keeps_held_def by blast
    with Some c show ?thesis by (simp add: consumeQueue_def Let_def)
  qed
qed

lemma held_addQueue: "keeps_held opts \<Longrightarrow> held s \<Longrightarrow> held (addQueue opts d now s)"
proof -
  assume k: "keeps_held opts" and h: "held s"
  let ?s1 = "enqueueBatch (derive_key opts d now) (hit opts d) s"
  let ?s2 = "if timeoutRef ?s1 = None then scheduleQueueConsumption opts ?s1 else ?s1"
  from h have "held ?s1" by (simp add: held_def)
  then have "held ?s2"
    by (auto simp: held_def)
  with k have "held (consumeQueue opts ?s2)" by (rule held_consumeQueue)
  with \<open>held ?s2\<close> h show ?thesis by (simp add: addQueue_def Let_def)
qed

lemma held_clearTimeout: "held s \<Longrightarrow> h \<in> set (map fst (timers s)) \<Longrightarrow> timers (clearTimeout h s) = []"
  by (auto simp: held_def clearTimeout_def)

lemma held_timer_fires: "keeps_held opts \<Longrightarrow> held s \<Longrightarrow> held (timer_fires opts h s)"
proof -
  assume k: "keeps_held opts" and hs: "held s"
  show ?thesis
  proof (cases "h \<in> set (map fst (timers s))")
    case True
    with hs have "timers (clearTimeout h s) = []" by (rule held_clearTimeout)
    then have c: "held (clearTimeout h s)" by (simp add: held_def)
    with k have "held (consumeQueue opts (clearTimeout h s))" by (rule held_consumeQueue)
    with c True show ?thesis by (simp add: timer_fires_def Let_def)
  next
    case False
    with hs show ?thesis by (simp add: timer_fires_def)
  qed
qed

lemma held_step: "keeps_held opts \<Longrightarrow> held s \<Longrightarrow> held (step opts e s)"
  by (cases e) (simp_all add: held_addQueue held_timer_fires cleanupQueue_def held_consumeQueue)

lemma held_run: "keeps_held opts \<Longrightarrow> held s \<Longrightarrow> held (run opts es s)"
  by (induction es arbitrary: s) (simp_all add: held_step)

lemma keeps_held_None: "onBatchCallback opts = None \<Longrightarrow> keeps_held opts"
  by (simp add: keeps_held_def)

lemma keeps_held_non_reentrant: "non_reentrant opts \<Longrightarrow> keeps_held opts"
proof -
  assume nr: "non_reentrant opts"
  have "held (f b s)" if "onBatchCallback opts = Some f" and "held s" for f b s
  proof -
    from non_reentrant_fields(3,4) [OF nr that(1)]
    have "timeoutRef (f b s) = timeoutRef s" and "timers (f b s) = timers s" by simp_all
    with that(2) show ?thesis by (simp add: held_def)
  qed
  then show ?thesis unfolding keeps_held_def by blast
qed

lemma keeps_held_reentrant: "keeps_held reentrant_opts"
proof -
  have q: "keeps_held quiet_opts" by (rule keeps_held_None) (simp add: quiet_opts_def)
  show ?thesis
    unfolding keeps_held_def
    by (auto simp: reentrant_opts_def held_addQueue [OF q])
qed

section \<open>The claims\<close>

subsection \<open>C1: what a flush resets\<close>

text \<open>
  Claim C1 says that every flush clears \<open>seen\<close> (the map \<open>batchRef\<close>) together with
  \<open>pending\<close> (the set \<open>queueRef\<close>), so that a key seen before the flush is accepted
  again. In the hook only the teardown clears the map: \<open>_consumeQueue\<close> empties the queue
  ``for the next batch'' and leaves the map, which keeps ``all batched items''. With the
  default threshold 1 the first \<open>{id: 1}\<close> is flushed at once; afterwards \<open>getQueue\<close> is
  empty, \<open>getBatch\<close> still holds the key 1, and a second \<open>{id: 1}\<close> is rejected.
\<close>

theorem seen_survives_flush:
  "world (addQueue demo_opts (item 1 1) 100 (init [])) = [[obj_val (item 1 1)]]
   \<and> getQueue (addQueue demo_opts (item 1 1) 100 (init [])) = []
   \<and> getBatch (addQueue demo_opts (item 1 1) 100 (init []))
       = [(JNum (Fin 1), obj_val (item 1 1))]
   \<and> addQueue demo_opts (item 2 1) 200 (addQueue demo_opts (item 1 1) 100 (init []))
       = addQueue demo_opts (item 1 1) 100 (init [])"
  by (simp add: demo_defs hook_defs)

text \<open>
  Claim C1, as the hook has it, for a consumer that does not call back into the hook:
  every flush (a call of \<open>_consumeQueue\<close>, be it from the timer, the threshold or the
  teardown) leaves \<open>getQueue\<close> empty; the flush of the timer leaves \<open>getBatch\<close> as it
  was and the flush of the threshold leaves it with the entry just accepted, so a key seen
  before such a flush is still rejected after it. The teardown clears both, and the next
  payload is accepted whatever its key.
\<close>

theorem flush_resets:
  assumes "non_reentrant opts"
  shows "getQueue (consumeQueue opts s) = [] \<and> getBatch (consumeQueue opts s) = getBatch s
     \<and> (h \<in> set (map fst (timers s)) \<longrightarrow>
           getQueue (timer_fires opts h s) = [] \<and> getBatch (timer_fires opts h s) = getBatch s)
     \<and> (\<not> js_map_has (derive_key opts d' now') (getBatch s)
          \<and> size_ge (length (js_set_add (hit opts d') (getQueue s))) (THRESHOLD opts) \<longrightarrow>
           getQueue (addQueue opts d' now' s) = []
           \<and> getBatch (addQueue opts d' now' s) = getBatch s @ [(derive_key opts d' now', hit opts d')])
     \<and> (js_map_has (derive_key opts d now) (getBatch s) \<longrightarrow>
           addQueue opts d now (consumeQueue opts s) = consumeQueue opts s)
     \<and> getQueue (cleanupQueue opts s) = [] \<and> getBatch (cleanupQueue opts s) = []
     \<and> getBatch (addQueue opts d now (cleanupQueue opts s)) = [(derive_key opts d now, hit opts d)]"
  using assms
  by (simp add: getQueue_def getBatch_def consumeQueue_fields queueRef_timer_fires
      batchRef_timer_fires addQueue_seen batchRef_addQueue queueRef_addQueue)

text \<open>
  With threshold 3, after \<open>{id: 1}\<close> and \<open>{id: 2}\<close>: the timer 1 is armed, the key 1 is
  seen. The timer's flush keeps both keys, the threshold's flush (by \<open>{id: 3}\<close>) keeps
  all three. After a flush another payload with \<open>id: 1\<close> changes nothing; after a
  teardown it is accepted.
\<close>

theorem flush_resets_witness:
  "non_reentrant opts3
   \<and> 1 \<in> set (map fst (timers (run opts3 [Add (item 1 1) 100, Add (item 2 2) 101] (init []))))
   \<and> js_map_has (derive_key opts3 (item 3 1) 102)
        (getBatch (run opts3 [Add (item 1 1) 100, Add (item 2 2) 101] (init [])))
   \<and> \<not> js_map_has (derive_key opts3 (item 4 3) 103)
        (getBatch (run opts3 [Add (item 1 1) 100, Add (item 2 2) 101] (init [])))
   \<and> size_ge (length (js_set_add (hit opts3 (item 4 3))
        (getQueue (run opts3 [Add (item 1 1) 100, Add (item 2 2) 101] (init []))))) (THRESHOLD opts3)
   \<and> getQueue (timer_fires opts3 1 (run opts3 [Add (item 1 1) 100, Add (item 2 2) 101] (init []))) = []
   \<and> getBatch (timer_fires opts3 1 (run opts3 [Add (item 1 1) 100, Add (item 2 2) 101] (init [])))
       = [(JNum (Fin 1), obj_val (item 1 1)), (JNum (Fin 2), obj_val (item 2 2))]
   \<and> getQueue (addQueue opts3 (item 4 3) 103
        (run opts3 [Add (item 1 1) 100, Add (item 2 2) 101] (init []))) = []
   \<and> getBatch (addQueue opts3 (item 4 3) 103
        (run opts3 [Add (item 1 1) 100, Add (item 2 2) 101] (init [])))
       = [(JNum (Fin 1), obj_val (item 1 1)), (JNum (Fin 2), obj_val (item 2 2)),
          (JNum (Fin 3), obj_val (item 4 3))]
   \<and> addQueue opts3 (item 3 1) 102
        (consumeQueue opts3 (run opts3 [Add (item 1 1) 100, Add (item 2 2) 101] (init [])))
       = consumeQueue opts3 (run opts3 [Add (item 1 1) 100, Add (item 2 2) 101] (init []))
   \<and> getBatch (addQueue opts3 (item 3 1) 102
        (cleanupQueue opts3 (run opts3 [Add (item 1 1) 100, Add (item 2 2) 101] (init []))))
       = [(JNum (Fin 1), obj_val (item 3 1))]"
proof -
  have nr: "non_reentrant opts3" by (simp add: non_reentrant_def demo_defs deliver_def)
  from flush_resets [OF nr, of "run opts3 [Add (item 1 1) 100, Add (item 2 2) 101] (init [])"
      1 "item 4 3" 103 "item 3 1" 102] nr
  show ?thesis by (simp add: demo_defs hook_defs)
qed

subsection \<open>C2: a key already seen\<close>

text \<open>
  Claim C2 says that a payload whose key is in \<open>seen\<close> is dropped and that the next flush
  batch has exactly one entry for that key, the first one accepted. The first half holds.
  The second fails when that first payload has been flushed already, since the map keeps
  its key: with the default threshold, \<open>{id: 1}\<close> is flushed at once, a second
  \<open>{id: 1}\<close> is dropped, and the next batch, made by \<open>{id: 2}\<close>, has no entry for the
  key 1.
\<close>

theorem flushed_key_absent_from_next_batch:
  "js_map_has (derive_key demo_opts (item 2 1) 200)
      (batchRef (run demo_opts [Add (item 1 1) 100] (init [])))
   \<and> run demo_opts [Add (item 1 1) 100, Add (item 2 1) 200] (init [])
       = run demo_opts [Add (item 1 1) 100] (init [])
   \<and> world (run demo_opts [Add (item 1 1) 100] (init [])) = [[obj_val (item 1 1)]]
   \<and> world (run demo_opts [Add (item 1 1) 100, Add (item 2 1) 200, Add (item 3 2) 300] (init []))
       = [[obj_val (item 1 1)], [obj_val (item 3 2)]]
   \<and> \<not> js_set_has (obj_val (item 1 1)) [obj_val (item 3 2)]
   \<and> \<not> js_set_has (obj_val (item 2 1)) [obj_val (item 3 2)]"
  by (simp add: demo_defs hook_defs)

text \<open>
  Claim C2, as the hook has it: in a state the hook can reach, a payload whose key is in
  the map leaves the state unchanged; and when the value accepted under that key still
  waits in the queue, the queue holds it exactly once and the next flush delivers the
  queue as it was before the dropped submission.
\<close>

theorem duplicate_key_dropped:
  assumes "onBatchCallback opts = Some deliver"
    and "s = run opts es (init [])"
    and "js_map_get (derive_key opts d now) (batchRef s) = Some v"
  shows "addQueue opts d now s = s
     \<and> (js_set_has v (queueRef s) \<longrightarrow>
          length (filter (\<lambda>y. same_value_zero y v) (queueRef s)) = 1
          \<and> world (consumeQueue opts (addQueue opts d now s)) = world s @ [queueRef s])"
proof -
  from assms(3) have same: "addQueue opts d now s = s"
    by (simp add: js_map_get_has addQueue_seen)
  from assms(1,2) have "distinct_svz (queueRef s)"
    using reach_inv_reachable [of opts es "[]"] by (simp add: non_reentrant_deliver reach_inv_def)
  then have "js_set_has v (queueRef s) \<longrightarrow>
      length (filter (\<lambda>y. same_value_zero y v) (queueRef s)) = 1"
    by (simp add: count_one)
  moreover have "js_set_has v (queueRef s) \<longrightarrow>
      world (consumeQueue opts s) = world s @ [queueRef s]"
    using assms(1) by (auto simp: world_consumeQueue_deliver)
  ultimately show ?thesis using same by simp
qed

text \<open>With threshold 3: \<open>{id: 1}\<close> waits, a second object with \<open>id: 1\<close> is dropped.\<close>

theorem duplicate_key_dropped_witness:
  "js_map_get (derive_key opts3 (item 2 1) 101) (batchRef (run opts3 [Add (item 1 1) 100] (init [])))
     = Some (obj_val (item 1 1))
   \<and> js_set_has (obj_val (item 1 1)) (queueRef (run opts3 [Add (item 1 1) 100] (init [])))
   \<and> addQueue opts3 (item 2 1) 101 (run opts3 [Add (item 1 1) 100] (init []))
       = run opts3 [Add (item 1 1) 100] (init [])
   \<and> world (consumeQueue opts3
        (addQueue opts3 (item 2 1) 101 (run opts3 [Add (item 1 1) 100] (init []))))
       = [[obj_val (item 1 1)]]"
proof -
  have cb: "onBatchCallback opts3 = Some deliver" by (simp add: demo_defs)
  have seen: "js_map_get (derive_key opts3 (item 2 1) 101)
      (batchRef (run opts3 [Add (item 1 1) 100] (init []))) = Some (obj_val (item 1 1))"
    by (simp add: demo_defs hook_defs)
  from duplicate_key_dropped [OF cb refl seen] seen
  show ?thesis by (simp add: demo_defs hook_defs)
qed

subsection \<open>C3: the threshold\<close>

text \<open>
  Claim C3: with the threshold configured as \<open>N\<close>, an accepted \<open>addQueue\<close> that brings
  the queue to size \<open>N\<close> flushes before it returns: the consumer has received the whole
  queue, the queue is empty, the timer reference is cleared and, from a state the hook
  can be in between events, no timer is left armed.
\<close>

theorem threshold_flush:
  assumes "onBatchCallback opts = Some deliver"
    and "threshold opts = Some (Fin N)"
    and "\<not> js_map_has (derive_key opts d now) (batchRef s)"
    and "int (length (js_set_add (hit opts d) (queueRef s))) = N"
  shows "world (addQueue opts d now s) = world s @ [js_set_add (hit opts d) (queueRef s)]
     \<and> queueRef (addQueue opts d now s) = []
     \<and> timeoutRef (addQueue opts d now s) = None
     \<and> (timer_inv s \<longrightarrow> timers (addQueue opts d now s) = [])"
proof -
  have "0 < length (js_set_add (hit opts d) (queueRef s))" by simp
  with assms(4) have "N \<noteq> 0" by linarith
  with assms(2) have "THRESHOLD opts = Fin N" by (simp add: THRESHOLD_def)
  with assms(4) have "size_ge (length (js_set_add (hit opts d) (queueRef s))) (THRESHOLD opts)"
    by simp
  from addQueue_at_threshold [OF assms(1) assms(3) this] show ?thesis by simp
qed

text \<open>The scenario of the threshold 3: the third distinct key flushes all three.\<close>

theorem threshold_flush_witness:
  "threshold opts3 = Some (Fin 3)
   \<and> \<not> js_map_has (derive_key opts3 (item 3 3) 102)
        (batchRef (run opts3 [Add (item 1 1) 100, Add (item 2 2) 101] (init [])))
   \<and> int (length (js_set_add (hit opts3 (item 3 3))
        (queueRef (run opts3 [Add (item 1 1) 100, Add (item 2 2) 101] (init []))))) = 3
   \<and> timer_inv (run opts3 [Add (item 1 1) 100, Add (item 2 2) 101] (init []))
   \<and> world (addQueue opts3 (item 3 3) 102
        (run opts3 [Add (item 1 1) 100, Add (item 2 2) 101] (init [])))
       = [[obj_val (item 1 1), obj_val (item 2 2), obj_val (item 3 3)]]
   \<and> queueRef (addQueue opts3 (item 3 3) 102
        (run opts3 [Add (item 1 1) 100, Add (item 2 2) 101] (init []))) = []
   \<and> timers (addQueue opts3 (item 3 3) 102
        (run opts3 [Add (item 1 1) 100, Add (item 2 2) 101] (init []))) = []"
proof -
  let ?s = "run opts3 [Add (item 1 1) 100, Add (item 2 2) 101] (init [])"
  have cb: "onBatchCallback opts3 = Some deliver" by (simp add: demo_defs)
  have th: "threshold opts3 = Some (Fin 3)" by (simp add: demo_defs)
  have new: "\<not> js_map_has (derive_key opts3 (item 3 3) 102) (batchRef ?s)"
    by (simp add: demo_defs hook_defs)
  have size: "int (length (js_set_add (hit opts3 (item 3 3)) (queueRef ?s))) = 3"
    by (simp add: demo_defs hook_defs)
  have inv: "timer_inv ?s"
    by (simp add: timer_inv_def demo_defs hook_defs)
  from threshold_flush [OF cb th new size] th new size inv
  show ?thesis by (simp add: demo_defs hook_defs)
qed

subsection \<open>C4: order and single delivery\<close>

text \<open>
  Claim C4 says that the batches list the accepted payloads, after \<open>onHitCallback\<close>, in
  their order of arrival, each in exactly one batch. The queue is a \<open>Set\<close>: two accepted
  payloads that \<open>onHitCallback\<close> maps to the same value are one element of it. With
  threshold 3 and every payload mapped to \<open>'view'\<close>, \<open>{id: 1}\<close> and \<open>{id: 2}\<close> are both
  accepted under distinct keys, and the teardown delivers the single batch \<open>['view']\<close>.
\<close>

theorem equal_values_merge_in_batch:
  "accepted view_opts [Add (item 1 1) 100, Add (item 2 2) 101, Teardown] (init [])
     = [JStr ''view'', JStr ''view'']
   \<and> \<not> same_value_zero (derive_key view_opts (item 1 1) 100) (derive_key view_opts (item 2 2) 101)
   \<and> world (run view_opts [Add (item 1 1) 100, Add (item 2 2) 101, Teardown] (init []))
     = [[JStr ''view'']]"
  by (simp add: demo_defs hook_defs)

text \<open>
  Claim C4, as the hook has it: when the accepted values of a run are pairwise different
  for \<open>Set\<close>, the batches delivered so far followed by the waiting queue are the accepted
  values in their order of arrival; once the queue is empty the batches alone are; and no
  value is in two batches.
\<close>

theorem batches_in_arrival_order:
  assumes "onBatchCallback opts = Some deliver"
    and "distinct_svz (accepted opts es (init []))"
    and "s = run opts es (init [])"
  shows "concat (world s) @ queueRef s = accepted opts es (init [])
     \<and> (queueRef s = [] \<longrightarrow> concat (world s) = accepted opts es (init []))
     \<and> length (filter (js_set_has x) (world s)) \<le> 1"
proof -
  from assms(2)
  have "distinct_svz (queueRef (init [] :: jsval list list hook_state) @ accepted opts es (init []))"
    by (simp add: init_def)
  from ledger_run [OF assms(1) this]
  have eq: "concat (world s) @ queueRef s = accepted opts es (init [])"
    using assms(3) by (simp add: ledger_def init_def)
  with assms(2) have "distinct_svz (concat (world s))"
    by (metis distinct_svz_append)
  then have "length (filter (js_set_has x) (world s)) \<le> 1" by (rule one_batch)
  with eq show ?thesis by auto
qed

text \<open>Threshold 2, three payloads and the teardown: the batches are \<open>[1, 2]\<close> and \<open>[3]\<close>.\<close>

theorem batches_in_arrival_order_witness:
  "distinct_svz (accepted (demo_opts\<lparr>threshold := Some (Fin 2)\<rparr>)
      [Add (item 1 1) 100, Add (item 2 2) 101, Add (item 3 3) 102, Teardown] (init []))
   \<and> accepted (demo_opts\<lparr>threshold := Some (Fin 2)\<rparr>)
      [Add (item 1 1) 100, Add (item 2 2) 101, Add (item 3 3) 102, Teardown] (init [])
     = [obj_val (item 1 1), obj_val (item 2 2), obj_val (item 3 3)]
   \<and> queueRef (run (demo_opts\<lparr>threshold := Some (Fin 2)\<rparr>)
      [Add (item 1 1) 100, Add (item 2 2) 101, Add (item 3 3) 102, Teardown] (init [])) = []
   \<and> world (run (demo_opts\<lparr>threshold := Some (Fin 2)\<rparr>)
      [Add (item 1 1) 100, Add (item 2 2) 101, Add (item 3 3) 102, Teardown] (init []))
     = [[obj_val (item 1 1), obj_val (item 2 2)], [obj_val (item 3 3)]]
   \<and> length (filter (js_set_has (obj_val (item 3 3)))
        (world (run (demo_opts\<lparr>threshold := Some (Fin 2)\<rparr>)
      [Add (item 1 1) 100, Add (item 2 2) 101, Add (item 3 3) 102, Teardown] (init [])))) \<le> 1"
proof -
  let ?o = "demo_opts\<lparr>threshold := Some (Fin 2)\<rparr>"
  let ?es = "[Add (item 1 1) 100, Add (item 2 2) 101, Add (item 3 3) 102, Teardown]"
  have cb: "onBatchCallback ?o = Some deliver" by (simp add: demo_defs)
  have acc: "accepted ?o ?es (init []) = [obj_val (item 1 1), obj_val (item 2 2), obj_val (item 3 3)]"
    by (simp add: demo_defs hook_defs)
  have d: "distinct_svz (accepted ?o ?es (init []))"
    unfolding acc by (simp add: demo_defs hook_defs)
  have w: "world (run ?o ?es (init [])) = [[obj_val (item 1 1), obj_val (item 2 2)], [obj_val (item 3 3)]]"
    by (simp add: demo_defs hook_defs)
  have q: "queueRef (run ?o ?es (init [])) = []"
    by (simp add: demo_defs hook_defs)
  from batches_in_arrival_order [OF cb d refl, of "obj_val (item 3 3)"] d acc w q
  show ?thesis by simp
qed

subsection \<open>C5: the dedup key\<close>

text \<open>
  Claim C5: the key of a payload is the property named by the dedup field when that
  property is truthy, and the timestamp otherwise; a configured truthy \<open>batchKey\<close> is that
  field, and the key is the one under which \<open>addQueue\<close> records the payload. So two
  payloads without the property, the same object even, are both accepted when their
  timestamps differ, and the second is dropped when the timestamps collide.
\<close>

theorem dedup_key:
  "derive_key opts d now =
     (if truthy (get_prop d (to_property_key (BATCH_KEY opts)))
      then get_prop d (to_property_key (BATCH_KEY opts)) else JNum (Fin now))
   \<and> (batchKey opts = Some k \<and> key_truthy k \<longrightarrow> BATCH_KEY opts = k)
   \<and> (non_reentrant opts \<and> \<not> js_map_has (derive_key opts d now) (batchRef s) \<longrightarrow>
        batchRef (addQueue opts d now s) = batchRef s @ [(derive_key opts d now, hit opts d)])
   \<and> (non_reentrant opts
        \<and> \<not> truthy (get_prop d1 (to_property_key (BATCH_KEY opts)))
        \<and> \<not> truthy (get_prop d2 (to_property_key (BATCH_KEY opts)))
        \<and> \<not> js_map_has (JNum (Fin n1)) (batchRef s) \<and> \<not> js_map_has (JNum (Fin n2)) (batchRef s)
        \<longrightarrow> batchRef (addQueue opts d2 n2 (addQueue opts d1 n1 s)) =
              (if n1 = n2 then batchRef s @ [(JNum (Fin n1), hit opts d1)]
               else batchRef s @ [(JNum (Fin n1), hit opts d1), (JNum (Fin n2), hit opts d2)]))"
proof -
  have a: "derive_key opts d now =
     (if truthy (get_prop d (to_property_key (BATCH_KEY opts)))
      then get_prop d (to_property_key (BATCH_KEY opts)) else JNum (Fin now))"
    by (simp add: derive_key_def Let_def)
  have b: "batchKey opts = Some k \<and> key_truthy k \<longrightarrow> BATCH_KEY opts = k"
    by (simp add: BATCH_KEY_def)
  have c: "non_reentrant opts \<and> \<not> js_map_has (derive_key opts d now) (batchRef s) \<longrightarrow>
        batchRef (addQueue opts d now s) = batchRef s @ [(derive_key opts d now, hit opts d)]"
    by (simp add: batchRef_addQueue)
  have e: "non_reentrant opts
        \<and> \<not> truthy (get_prop d1 (to_property_key (BATCH_KEY opts)))
        \<and> \<not> truthy (get_prop d2 (to_property_key (BATCH_KEY opts)))
        \<and> \<not> js_map_has (JNum (Fin n1)) (batchRef s) \<and> \<not> js_map_has (JNum (Fin n2)) (batchRef s)
        \<longrightarrow> batchRef (addQueue opts d2 n2 (addQueue opts d1 n1 s)) =
              (if n1 = n2 then batchRef s @ [(JNum (Fin n1), hit opts d1)]
               else batchRef s @ [(JNum (Fin n1), hit opts d1), (JNum (Fin n2), hit opts d2)])"
    by (auto simp: batchRef_addQueue derive_key_def Let_def js_map_has_def)
  from a b c e show ?thesis by blast
qed

text \<open>
  \<open>{id: 7}\<close> has the key 7; the object \<open>{}\<close> at address 5, submitted at the times 100
  and 101, is recorded twice, and once when submitted twice at the time 100; with
  \<open>batchKey: 42\<close> the key of \<open>{42: 'a'}\<close> is \<open>'a'\<close>.
\<close>

theorem dedup_key_witness:
  "batchKey demo_opts = Some (KStr ''id'') \<and> key_truthy (KStr ''id'')
   \<and> non_reentrant demo_opts
   \<and> \<not> js_map_has (derive_key demo_opts (item 1 7) 100)
        (batchRef (init [] :: jsval list list hook_state))
   \<and> \<not> truthy (get_prop (5, []) (to_property_key (BATCH_KEY demo_opts)))
   \<and> derive_key demo_opts (item 1 7) 100 = JNum (Fin 7)
   \<and> BATCH_KEY demo_opts = KStr ''id''
   \<and> batchRef (addQueue demo_opts (item 1 7) 100 (init [])) = [(JNum (Fin 7), obj_val (item 1 7))]
   \<and> batchRef (addQueue demo_opts (5, []) 101 (addQueue demo_opts (5, []) 100 (init [])))
       = [(JNum (Fin 100), JObj 5 []), (JNum (Fin 101), JObj 5 [])]
   \<and> batchRef (addQueue demo_opts (5, []) 100 (addQueue demo_opts (5, []) 100 (init [])))
       = [(JNum (Fin 100), JObj 5 [])]
   \<and> key_truthy (KNum (Fin 42))
   \<and> derive_key (demo_opts\<lparr>batchKey := Some (KNum (Fin 42))\<rparr>) (6, [(''42'', JStr ''a'')]) 100
       = JStr ''a''"
proof -
  have nr: "non_reentrant demo_opts" by (simp add: non_reentrant_def demo_defs deliver_def)
  from dedup_key [of demo_opts "item 1 7" 100 "KStr ''id''" "init []" "(5, [])" "(5, [])" 100 101]
    dedup_key [of demo_opts "item 1 7" 100 "KStr ''id''" "init []" "(5, [])" "(5, [])" 100 100]
    dedup_key [of "demo_opts\<lparr>batchKey := Some (KNum (Fin 42))\<rparr>" "(6, [(''42'', JStr ''a'')])" 100
      "KNum (Fin 42)" "init []" "(5, [])" "(5, [])" 100 101] nr
  show ?thesis by (simp add: demo_defs hook_defs digits10.simps)
qed

subsection \<open>C6: one timer\<close>

text \<open>
  Claim C6 says that at most one timer is pending and that \<open>addQueue\<close> schedules one
  only when the queue goes from empty to non-empty, which it takes to be the same as
  holding no handle. The two come apart when the consumer calls \<open>addQueue\<close>: the flush
  has cleared the handle and not yet the queue. With threshold 5, \<open>{id: 1}\<close> waits and
  its timer fires; the consumer's \<open>addQueue({id: 9})\<close> finds \<open>{id: 1}\<close> still in the
  queue and no handle, and arms the timer 2. The flush then empties the queue, and the
  timer 2 stays armed over an empty queue.
\<close>

theorem timer_armed_on_waiting_queue:
  "queueRef (cancel_timer (clearTimeout 1 (run reentrant_opts [Add (item 1 1) 100] (init ()))))
     = [obj_val (item 1 1)]
   \<and> timeoutRef (cancel_timer (clearTimeout 1 (run reentrant_opts [Add (item 1 1) 100] (init ()))))
     = None
   \<and> last_handle (cancel_timer (clearTimeout 1 (run reentrant_opts [Add (item 1 1) 100] (init ()))))
     = 1
   \<and> addQueue reentrant_opts (item 9 9) 500
        (cancel_timer (clearTimeout 1 (run reentrant_opts [Add (item 1 1) 100] (init ()))))
     = \<lparr>batchRef = [(JNum (Fin 1), obj_val (item 1 1)), (JNum (Fin 9), obj_val (item 9 9))],
        queueRef = [obj_val (item 1 1), obj_val (item 9 9)], timeoutRef = Some 2,
        timers = [(2, Fin 10)], last_handle = 2, world = ()\<rparr>
   \<and> addQueue quiet_opts (item 9 9) 500
        (cancel_timer (clearTimeout 1 (run reentrant_opts [Add (item 1 1) 100] (init ()))))
     = addQueue reentrant_opts (item 9 9) 500
        (cancel_timer (clearTimeout 1 (run reentrant_opts [Add (item 1 1) 100] (init ()))))
   \<and> run reentrant_opts [Add (item 1 1) 100, Fire 1] (init ())
     = (addQueue reentrant_opts (item 9 9) 500
        (cancel_timer (clearTimeout 1 (run reentrant_opts [Add (item 1 1) 100] (init ())))))
       \<lparr>queueRef := []\<rparr>
   \<and> run reentrant_opts [Add (item 1 1) 100, Fire 1] (init ())
     = \<lparr>batchRef = [(JNum (Fin 1), obj_val (item 1 1)), (JNum (Fin 9), obj_val (item 9 9))],
        queueRef = [], timeoutRef = Some 2, timers = [(2, Fin 10)], last_handle = 2,
        world = ()\<rparr>"
  by (simp add: demo_defs hook_defs)

text \<open>
  Claim C6, as the hook has it: in every state the hook can reach, also with a consumer
  that calls \<open>addQueue\<close> again, at most one timer is armed, and the hook holds its
  handle. While a handle is held, \<open>addQueue\<close> does not call \<open>setTimeout\<close>, whatever the
  consumer: it records the payload and flushes at the threshold. With a consumer that
  does not call back into the hook, whenever \<open>addQueue\<close> calls \<open>setTimeout\<close> (the
  handle counter moves) the queue was empty, no handle was held and the payload was
  accepted.
\<close>

theorem one_timer:
  assumes "s = run opts es (init w)"
  shows "(keeps_held opts \<longrightarrow>
            length (timers s) \<le> 1 \<and> (timers s \<noteq> [] \<longrightarrow> timeoutRef s \<noteq> None))
     \<and> (timeoutRef s \<noteq> None \<longrightarrow>
          addQueue opts d now s =
            (if js_map_has (derive_key opts d now) (batchRef s) then s
             else if size_ge (length (js_set_add (hit opts d) (queueRef s))) (THRESHOLD opts)
               then consumeQueue opts (enqueueBatch (derive_key opts d now) (hit opts d) s)
               else enqueueBatch (derive_key opts d now) (hit opts d) s))
     \<and> (non_reentrant opts \<longrightarrow>
          (last_handle (addQueue opts d now s) \<noteq> last_handle s \<longrightarrow>
             queueRef s = [] \<and> timeoutRef s = None
             \<and> \<not> js_map_has (derive_key opts d now) (batchRef s)))"
proof -
  have a: "length (timers s) \<le> 1 \<and> (timers s \<noteq> [] \<longrightarrow> timeoutRef s \<noteq> None)"
    if "keeps_held opts"
  proof -
    from that assms have "held s" by (simp add: held_run held_init)
    then have "timers s = [] \<or> (\<exists>t. timers s = [t] \<and> timeoutRef s = Some (fst t))"
      unfolding held_def by (cases "timers s") auto
    then show ?thesis by auto
  qed
  have b: "last_handle (addQueue opts d now s) \<noteq> last_handle s \<longrightarrow>
             queueRef s = [] \<and> timeoutRef s = None
             \<and> \<not> js_map_has (derive_key opts d now) (batchRef s)"
    if nr: "non_reentrant opts"
  proof -
    from nr assms have "timer_inv s"
      using reach_inv_reachable [of opts es w] by (simp add: reach_inv_def)
    then have "timeoutRef s = None \<longrightarrow> queueRef s = []"
      by (auto simp: timer_inv_def split: option.splits)
    with nr show ?thesis
      by (simp add: last_handle_addQueue split: if_splits)
  qed
  have c: "addQueue opts d now s =
            (if js_map_has (derive_key opts d now) (batchRef s) then s
             else if size_ge (length (js_set_add (hit opts d) (queueRef s))) (THRESHOLD opts)
               then consumeQueue opts (enqueueBatch (derive_key opts d now) (hit opts d) s)
               else enqueueBatch (derive_key opts d now) (hit opts d) s)"
    if "timeoutRef s \<noteq> None"
    using that by (auto simp: addQueue_def Let_def)
  from a b c show ?thesis by blast
qed

text \<open>
  The consumer that calls \<open>addQueue({id: 9})\<close>: after \<open>{id: 1}\<close> and its timer, the
  timer 2 is the only one armed. The recording consumer with threshold 3: while
  \<open>{id: 1}\<close> waits under the timer 1, \<open>{id: 2}\<close> joins it and no timer is added; after
  \<open>{id: 1}\<close> and its timer, \<open>{id: 2}\<close> finds the queue empty and arms the next timer.
\<close>

theorem one_timer_witness:
  "keeps_held reentrant_opts
   \<and> timers (run reentrant_opts [Add (item 1 1) 100, Fire 1] (init ())) = [(2, Fin 10)]
   \<and> timeoutRef (run reentrant_opts [Add (item 1 1) 100, Fire 1] (init ())) = Some 2
   \<and> non_reentrant opts3
   \<and> timers (run opts3 [Add (item 1 1) 100] (init [])) = [(1, Fin 10)]
   \<and> timeoutRef (run opts3 [Add (item 1 1) 100] (init [])) = Some 1
   \<and> addQueue opts3 (item 2 2) 150 (run opts3 [Add (item 1 1) 100] (init []))
       = enqueueBatch (JNum (Fin 2)) (obj_val (item 2 2)) (run opts3 [Add (item 1 1) 100] (init []))
   \<and> timers (addQueue opts3 (item 2 2) 150 (run opts3 [Add (item 1 1) 100] (init [])))
       = [(1, Fin 10)]
   \<and> last_handle (addQueue opts3 (item 2 2) 150 (run opts3 [Add (item 1 1) 100, Fire 1] (init [])))
       \<noteq> last_handle (run opts3 [Add (item 1 1) 100, Fire 1] (init []))
   \<and> queueRef (run opts3 [Add (item 1 1) 100, Fire 1] (init [])) = []
   \<and> timeoutRef (run opts3 [Add (item 1 1) 100, Fire 1] (init [])) = None"
proof -
  have nr: "non_reentrant opts3" by (simp add: non_reentrant_def demo_defs deliver_def)
  from one_timer [OF refl, of reentrant_opts "[Add (item 1 1) 100, Fire 1]" "()" "item 2 2" 150]
    one_timer [OF refl, of opts3 "[Add (item 1 1) 100]" "[]" "item 2 2" 150]
    one_timer [OF refl, of opts3 "[Add (item 1 1) 100, Fire 1]" "[]" "item 2 2" 150]
    nr keeps_held_reentrant
  show ?thesis by (simp add: demo_defs hook_defs)
qed

subsection \<open>C7: the timer is cleared before the consumer runs\<close>



subsection \<open>C8: the teardown\<close>

text \<open>
  Claim C8 says that after the teardown's flush no timer fires and that a second
  teardown changes no state. Both fail when the consumer calls \<open>addQueue\<close>: with
  threshold 5 and \<open>{id: 1}\<close> waiting, the teardown cancels the timer 1 and calls the
  consumer, whose \<open>addQueue({id: 9})\<close> arms the timer 2; the teardown then clears the
  map and the queue and returns with the timer 2 armed and held. That timer fires
  afterwards, and a second teardown cancels it and clears the handle.
\<close>

theorem teardown_leaves_timer_of_reentrant_consumer:
  "queueRef (run reentrant_opts [Add (item 1 1) 100] (init ())) = [obj_val (item 1 1)]
   \<and> addQueue quiet_opts (item 9 9) 500
        (cancel_timer (run reentrant_opts [Add (item 1 1) 100] (init ())))
     = addQueue reentrant_opts (item 9 9) 500
        (cancel_timer (run reentrant_opts [Add (item 1 1) 100] (init ())))
   \<and> cleanupQueue reentrant_opts (run reentrant_opts [Add (item 1 1) 100] (init ()))
     = \<lparr>batchRef = [], queueRef = [], timeoutRef = Some 2, timers = [(2, Fin 10)],
        last_handle = 2, world = ()\<rparr>
   \<and> 2 \<in> set (map fst (timers
        (cleanupQueue reentrant_opts (run reentrant_opts [Add (item 1 1) 100] (init ())))))
   \<and> timer_fires reentrant_opts 2
        (cleanupQueue reentrant_opts (run reentrant_opts [Add (item 1 1) 100] (init ())))
     = \<lparr>batchRef = [], queueRef = [], timeoutRef = Some 2, timers = [],
        last_handle = 2, world = ()\<rparr>
   \<and> cleanupQueue reentrant_opts
        (cleanupQueue reentrant_opts (run reentrant_opts [Add (item 1 1) 100] (init ())))
     = \<lparr>batchRef = [], queueRef = [], timeoutRef = None, timers = [],
        last_handle = 2, world = ()\<rparr>
   \<and> cleanupQueue reentrant_opts
        (cleanupQueue reentrant_opts (run reentrant_opts [Add (item 1 1) 100] (init ())))
     \<noteq> cleanupQueue reentrant_opts (run reentrant_opts [Add (item 1 1) 100] (init ()))"
  by (simp add: demo_defs hook_defs)

text \<open>
  Claim C8, as the hook has it, for a consumer that records its batches and does not
  call back into the hook: from a state the hook can reach, the teardown hands the
  waiting queue to the consumer in one call (none when nothing waits), leaves no timer
  armed, so none fires afterwards, and clears the map and the queue; a second teardown
  changes nothing, the consumer's record included.
\<close>

theorem teardown_flushes_once:
  assumes "onBatchCallback opts = Some deliver" and "s = run opts es (init [])"
  shows "world (cleanupQueue opts s) = (if queueRef s = [] then world s else world s @ [queueRef s])
     \<and> timers (cleanupQueue opts s) = []
     \<and> timeoutRef (cleanupQueue opts s) = None
     \<and> timer_fires opts h (cleanupQueue opts s) = cleanupQueue opts s
     \<and> getBatch (cleanupQueue opts s) = []
     \<and> getQueue (cleanupQueue opts s) = []
     \<and> cleanupQueue opts (cleanupQueue opts s) = cleanupQueue opts s"
proof -
  have nr: "non_reentrant opts" using assms(1) by (rule non_reentrant_deliver)
  with assms(2) have "timer_inv s"
    using reach_inv_reachable [of opts es "[]"] by (simp add: reach_inv_def)
  then have t: "timers (cleanupQueue opts s) = []"
    using nr
    by (auto simp: cleanupQueue_def consumeQueue_fields timers_cancel_timer timer_inv_def
        split: option.splits)
  then have "timer_fires opts h (cleanupQueue opts s) = cleanupQueue opts s"
    by (simp add: timer_fires_def)
  with t nr assms(1) show ?thesis
    by (simp add: world_cleanupQueue world_consumeQueue_deliver getBatch_def getQueue_def
        cleanupQueue_idem) (simp add: cleanupQueue_def consumeQueue_fields)
qed

text \<open>With threshold 3, \<open>{id: 1}\<close> and then the teardown: one batch, holding that item.\<close>

theorem teardown_flushes_once_witness:
  "queueRef (run opts3 [Add (item 1 1) 100] (init [])) = [obj_val (item 1 1)]
   \<and> timers (run opts3 [Add (item 1 1) 100] (init [])) = [(1, Fin 10)]
   \<and> cleanupQueue opts3 (run opts3 [Add (item 1 1) 100] (init []))
       = \<lparr>batchRef = [], queueRef = [], timeoutRef = None, timers = [], last_handle = 1,
          world = [[obj_val (item 1 1)]]\<rparr>
   \<and> timer_fires opts3 1 (cleanupQueue opts3 (run opts3 [Add (item 1 1) 100] (init [])))
       = cleanupQueue opts3 (run opts3 [Add (item 1 1) 100] (init []))
   \<and> cleanupQueue opts3 (cleanupQueue opts3 (run opts3 [Add (item 1 1) 100] (init [])))
       = cleanupQueue opts3 (run opts3 [Add (item 1 1) 100] (init []))"
proof -
  have cb: "onBatchCallback opts3 = Some deliver" by (simp add: demo_defs)
  from teardown_flushes_once [OF cb refl, of "[Add (item 1 1) 100]" 1]
  show ?thesis by (simp add: demo_defs hook_defs)
qed

subsection \<open>C9: falsy options\<close>

text \<open>
  Claim C9: a falsy \<open>timeout\<close> (0 or \<open>NaN\<close>) runs as \<open>timeout: 10\<close> and as no timeout
  given; a falsy \<open>threshold\<close> runs as \<open>threshold: 1\<close> and as none given, so every
  accepted payload is flushed on the spot; a falsy \<open>batchKey\<close> (\<open>''\<close>, 0, \<open>NaN\<close>) runs as
  none given, the key being the property named by the empty string when truthy and the
  timestamp otherwise.
\<close>

theorem falsy_options_take_defaults:
  "(\<not> num_truthy n \<longrightarrow>
      run (opts\<lparr>timeout := Some n\<rparr>) es s = run (opts\<lparr>timeout := Some (Fin 10)\<rparr>) es s
      \<and> run (opts\<lparr>timeout := Some n\<rparr>) es s = run (opts\<lparr>timeout := None\<rparr>) es s
      \<and> run (opts\<lparr>threshold := Some n\<rparr>) es s = run (opts\<lparr>threshold := Some (Fin 1)\<rparr>) es s
      \<and> run (opts\<lparr>threshold := Some n\<rparr>) es s = run (opts\<lparr>threshold := None\<rparr>) es s
      \<and> (onBatchCallback opts = Some deliver
           \<and> \<not> js_map_has (derive_key opts d now) (batchRef s) \<longrightarrow>
           world (addQueue (opts\<lparr>threshold := Some n\<rparr>) d now s)
             = world s @ [js_set_add (hit opts d) (queueRef s)]
           \<and> queueRef (addQueue (opts\<lparr>threshold := Some n\<rparr>) d now s) = []))
   \<and> (\<not> key_truthy k \<longrightarrow>
        run (opts\<lparr>batchKey := Some k\<rparr>) es s = run (opts\<lparr>batchKey := None\<rparr>) es s
        \<and> derive_key (opts\<lparr>batchKey := Some k\<rparr>) d now =
            (if truthy (get_prop d []) then get_prop d [] else JNum (Fin now)))"
proof -
  have t: "\<not> num_truthy n \<Longrightarrow> same_config (opts\<lparr>timeout := Some n\<rparr>) (opts\<lparr>timeout := Some (Fin 10)\<rparr>)"
    "\<not> num_truthy n \<Longrightarrow> same_config (opts\<lparr>timeout := Some n\<rparr>) (opts\<lparr>timeout := None\<rparr>)"
    "\<not> num_truthy n \<Longrightarrow> same_config (opts\<lparr>threshold := Some n\<rparr>) (opts\<lparr>threshold := Some (Fin 1)\<rparr>)"
    "\<not> num_truthy n \<Longrightarrow> same_config (opts\<lparr>threshold := Some n\<rparr>) (opts\<lparr>threshold := None\<rparr>)"
    "\<not> key_truthy k \<Longrightarrow> same_config (opts\<lparr>batchKey := Some k\<rparr>) (opts\<lparr>batchKey := None\<rparr>)"
    by (simp_all add: same_config_def TIMEOUT_def THRESHOLD_def BATCH_KEY_def)
  have k: "\<not> key_truthy k \<Longrightarrow> derive_key (opts\<lparr>batchKey := Some k\<rparr>) d now =
            (if truthy (get_prop d []) then get_prop d [] else JNum (Fin now))"
    by (simp add: derive_key_def BATCH_KEY_def Let_def)
  have f: "world (addQueue (opts\<lparr>threshold := Some n\<rparr>) d now s)
             = world s @ [js_set_add (hit opts d) (queueRef s)]
           \<and> queueRef (addQueue (opts\<lparr>threshold := Some n\<rparr>) d now s) = []"
    if "\<not> num_truthy n" and "onBatchCallback opts = Some deliver"
      and "\<not> js_map_has (derive_key opts d now) (batchRef s)"
  proof -
    let ?o = "opts\<lparr>threshold := Some n\<rparr>"
    have 1: "onBatchCallback ?o = Some deliver" using that(2) by simp
    have 2: "\<not> js_map_has (derive_key ?o d now) (batchRef s)"
      using that(3) by (simp add: derive_key_def BATCH_KEY_def)
    have "THRESHOLD ?o = Fin 1" using that(1) by (simp add: THRESHOLD_def)
    moreover have "0 < length (js_set_add (hit ?o d) (queueRef s))" by simp
    ultimately have 3: "size_ge (length (js_set_add (hit ?o d) (queueRef s))) (THRESHOLD ?o)"
      by (simp del: length_greater_0_conv)
    have "hit ?o d = hit opts d" by (simp add: hit_def)
    with addQueue_at_threshold(1,2) [OF 1 2 3] show ?thesis by simp
  qed
  show ?thesis
    using t k f by (simp add: same_config_run)
qed

text \<open>
  \<open>timeout: 0\<close> arms the timer with the delay 10; \<open>threshold: 0\<close> flushes each of two
  payloads alone; with \<open>batchKey: 0\<close> the property \<open>'0'\<close> of a payload is not its key.
\<close>

theorem falsy_options_take_defaults_witness:
  "\<not> num_truthy (Fin 0) \<and> \<not> key_truthy (KNum (Fin 0))
   \<and> onBatchCallback opts3 = Some deliver
   \<and> \<not> js_map_has (derive_key opts3 (item 1 1) 100)
        (batchRef (init [] :: jsval list list hook_state))
   \<and> timers (run (opts3\<lparr>timeout := Some (Fin 0)\<rparr>) [Add (item 1 1) 100] (init []))
       = [(1, Fin 10)]
   \<and> run (opts3\<lparr>timeout := Some (Fin 0)\<rparr>) [Add (item 1 1) 100] (init [])
       = run (opts3\<lparr>timeout := None\<rparr>) [Add (item 1 1) 100] (init [])
   \<and> world (run (opts3\<lparr>threshold := Some (Fin 0)\<rparr>) [Add (item 1 1) 100, Add (item 2 2) 101]
        (init [])) = [[obj_val (item 1 1)], [obj_val (item 2 2)]]
   \<and> run (opts3\<lparr>threshold := Some (Fin 0)\<rparr>) [Add (item 1 1) 100, Add (item 2 2) 101] (init [])
       = run (opts3\<lparr>threshold := Some (Fin 1)\<rparr>) [Add (item 1 1) 100, Add (item 2 2) 101] (init [])
   \<and> world (addQueue (opts3\<lparr>threshold := Some (Fin 0)\<rparr>) (item 1 1) 100 (init []))
       = [[obj_val (item 1 1)]]
   \<and> derive_key (opts3\<lparr>batchKey := Some (KNum (Fin 0))\<rparr>) (4, [(''0'', JStr ''a'')]) 100
       = JNum (Fin 100)
   \<and> run (opts3\<lparr>batchKey := Some (KNum (Fin 0))\<rparr>) [Add (4, [(''0'', JStr ''a'')]) 100] (init [])
       = run (opts3\<lparr>batchKey := None\<rparr>) [Add (4, [(''0'', JStr ''a'')]) 100] (init [])"
proof -
  from falsy_options_take_defaults [of "Fin 0" opts3 "[Add (item 1 1) 100]" "init []"
      "item 1 1" 100 "KNum (Fin 0)"]
    falsy_options_take_defaults [of "Fin 0" opts3 "[Add (item 1 1) 100, Add (item 2 2) 101]"
      "init []" "(4, [(''0'', JStr ''a'')])" 100 "KNum (Fin 0)"]
    falsy_options_take_defaults [of "Fin 0" opts3 "[Add (4, [(''0'', JStr ''a'')]) 100]"
      "init []" "(4, [(''0'', JStr ''a'')])" 100 "KNum (Fin 0)"]
  show ?thesis by (simp add: demo_defs hook_defs)
qed

subsection \<open>C10: the queue is a set of values\<close>



end
